theory Spec2Isabelle
  imports Main
begin

section \<open>JavaScript values and built-ins used by the two Lambda functions\<close>

text \<open>
  Both functions of \<^verbatim>\<open>processCSV.js\<close> are glue around managed services. The services
  (object storage, queue, parameter store, database) and the clock are the environment:
  their answers are parameters of the model, and every call that can throw has a failing
  branch. JavaScript strings are modelled as \<^typ>\<open>string\<close>, \<^verbatim>\<open>undefined\<close> as
  \<^const>\<open>None\<close>.
\<close>

datatype error =
  TypeError | URIError | SyntaxError | S3Error | ParseError | SQSError | SSMError | DBError

datatype json =
  JNull | JBool bool | JNumber int | JString string
  | JArray "json list" | JObject "(string \<times> json) list"

definition digit :: "nat \<Rightarrow> char" where
  "digit n = ''0123456789'' ! (n mod 10)"

text \<open>Decimal text of a number, as a template literal \<^verbatim>\<open>`${n}`\<close> prints an integer.\<close>

function show_nat :: "nat \<Rightarrow> string" where
  "show_nat n = (if n < 10 then [digit n] else show_nat (n div 10) @ [digit n])"
  by pat_completeness auto
termination
  by (relation "measure (\<lambda>n. n)") auto

declare show_nat.simps [simp del]

definition show_int :: "int \<Rightarrow> string" where
  "show_int i = (if i < 0 then CHR ''-'' # show_nat (nat (- i)) else show_nat (nat i))"

definition hex_digit :: "nat \<Rightarrow> char" where
  "hex_digit n = ''0123456789abcdef'' ! (n mod 16)"

text \<open>
  \<^verbatim>\<open>JSON.stringify\<close> on a string: the quotation mark, the backslash and the control
  characters are escaped, everything else is copied.
\<close>

definition escape_char :: "char \<Rightarrow> string" where
  "escape_char c =
     (if c = CHR 0x22 then [CHR 0x5C, CHR 0x22]
      else if c = CHR 0x5C then [CHR 0x5C, CHR 0x5C]
      else if c = CHR 0x08 then [CHR 0x5C, CHR ''b'']
      else if c = CHR 0x0C then [CHR 0x5C, CHR ''f'']
      else if c = CHR 0x0A then [CHR 0x5C, CHR ''n'']
      else if c = CHR 0x0D then [CHR 0x5C, CHR ''r'']
      else if c = CHR 0x09 then [CHR 0x5C, CHR ''t'']
      else if (of_char c :: nat) < 32
        then [CHR 0x5C, CHR ''u'', CHR ''0'', CHR ''0'',
              hex_digit (of_char c div 16), hex_digit (of_char c)]
      else [c])"

definition JSON_quote :: "string \<Rightarrow> string" where
  "JSON_quote s = CHR 0x22 # concat (map escape_char s) @ [CHR 0x22]"

fun join :: "string \<Rightarrow> string list \<Rightarrow> string" where
  "join sep [] = []"
| "join sep [s] = s"
| "join sep (s # t # ss) = s @ sep @ join sep (t # ss)"

fun JSON_stringify :: "json \<Rightarrow> string"
  and stringify_members :: "(string \<times> json) list \<Rightarrow> string list"
  and stringify_elements :: "json list \<Rightarrow> string list" where
  "JSON_stringify JNull = ''null''"
| "JSON_stringify (JBool b) = (if b then ''true'' else ''false'')"
| "JSON_stringify (JNumber n) = show_int n"
| "JSON_stringify (JString s) = JSON_quote s"
| "JSON_stringify (JArray vs) = ''['' @ join '','' (stringify_elements vs) @ '']''"
| "JSON_stringify (JObject ms) = ''{'' @ join '','' (stringify_members ms) @ ''}''"
| "stringify_members [] = []"
| "stringify_members ((k, v) # ms) =
     (JSON_quote k @ '':'' @ JSON_stringify v) # stringify_members ms"
| "stringify_elements [] = []"
| "stringify_elements (v # vs) = JSON_stringify v # stringify_elements vs"

text \<open>\<^verbatim>\<open>s.split(c)\<close> for a one-character separator: always at least one piece.\<close>

fun split_on :: "char \<Rightarrow> string \<Rightarrow> string list" where
  "split_on c [] = [[]]"
| "split_on c (x # xs) =
     (if x = c then [] # split_on c xs
      else (case split_on c xs of
              [] \<Rightarrow> [[x]]
            | p # ps \<Rightarrow> (x # p) # ps))"

text \<open>Array indexing \<^verbatim>\<open>xs[i]\<close>: \<^verbatim>\<open>undefined\<close> out of range.\<close>

definition nth_opt :: "'a list \<Rightarrow> nat \<Rightarrow> 'a option" where
  "nth_opt xs i = (if i < length xs then Some (xs ! i) else None)"

section \<open>The ingestion function (storage upload to queue)\<close>

text \<open>
  A row as the CSV parser emits it: the object's properties, column name and string value,
  in enumeration order.
\<close>

type_synonym row = "(string \<times> string) list"

definition row_json :: "row \<Rightarrow> json" where
  "row_json r = JObject (map (\<lambda>(k, v). (k, JString v)) r)"

record entry =
  Id :: string
  MessageBody :: string
  MessageGroupId :: string
  MessageDeduplicationId :: string

record s3_record =
  bucket_name :: string
  object_key :: string

text \<open>
  The upload notification. \<^verbatim>\<open>Records\<close> may be missing (\<^const>\<open>None\<close>) or empty; a
  record that is there has its bucket name and object key.
\<close>

record s3_event =
  Records :: "s3_record list option"

record response =
  statusCode :: nat
  body :: string

text \<open>
  The environment of one ingestion run:
  \<^item> \<open>s3_get bucket key\<close>: the text of the object (\<^verbatim>\<open>GetObjectCommand\<close> and
    \<^verbatim>\<open>streamToString\<close>), \<^const>\<open>None\<close> when the fetch throws;
  \<^item> \<open>decodeURIComponent\<close>: \<^const>\<open>None\<close> when it throws \<^verbatim>\<open>URIError\<close>;
  \<^item> \<open>csvParser text\<close>: the rows the parser's stream emits, in order, and whether the
    stream then fails instead of ending;
  \<^item> \<open>sqs_ok n\<close>: whether the \<open>n\<close>-th \<^verbatim>\<open>SendMessageBatchCommand\<close> of the run succeeds;
  \<^item> \<open>now n\<close>: what the \<open>n\<close>-th call of \<^verbatim>\<open>Date.now()\<close> of the run returns.
\<close>

record ingest_env =
  s3_get :: "string \<Rightarrow> string \<Rightarrow> string option"
  decodeURIComponent :: "string \<Rightarrow> string option"
  csvParser :: "string \<Rightarrow> row list \<times> bool"
  sqs_ok :: "nat \<Rightarrow> bool"
  now :: "nat \<Rightarrow> int"

text \<open>
  What a run has done so far: the batch-send calls issued, oldest first, each with its
  entries, and the number of clock reads.
\<close>

record ingest_state =
  calls :: "entry list list"
  ticks :: nat

definition CHUNK_SIZE :: nat where
  "CHUNK_SIZE = 10"

text \<open>\<^verbatim>\<open>row.id || index\<close>: the id column when it is there and not empty, else the index.\<close>

definition id_or_index :: "row \<Rightarrow> nat \<Rightarrow> string" where
  "id_or_index r index =
     (case map_of r ''id'' of
        None \<Rightarrow> show_nat index
      | Some v \<Rightarrow> if v = [] then show_nat index else v)"

text \<open>The message payload \<^verbatim>\<open>JSON.stringify({ data: row, env })\<close>.\<close>

definition message_body :: "row \<Rightarrow> string \<Rightarrow> string" where
  "message_body r env = JSON_stringify (JObject [(''data'', row_json r), (''env'', JString env)])"

text \<open>
  One element of \<^verbatim>\<open>chunk.map((row, index) => ...)\<close>; \<open>t0\<close> is the number of clock
  reads before the map starts. Each element reads the clock twice, first for \<open>Id\<close>.
\<close>

definition mk_entry :: "(nat \<Rightarrow> int) \<Rightarrow> nat \<Rightarrow> string \<Rightarrow> nat \<times> row \<Rightarrow> entry" where
  "mk_entry clock t0 env ir =
     (case ir of (index, r) \<Rightarrow>
        \<lparr> Id = ''row-'' @ show_nat index @ ''-'' @ show_int (clock (t0 + 2 * index)),
          MessageBody = message_body r env,
          MessageGroupId = ''CSVChunkGroup'',
          MessageDeduplicationId =
            ''dedup-'' @ id_or_index r index @ ''-'' @ show_int (clock (t0 + 2 * index + 1)) \<rparr>)"

text \<open>
  The default of the parameter list \<^verbatim>\<open>(chunk, env = "dev")\<close>: it applies when the
  argument is \<^verbatim>\<open>undefined\<close>.
\<close>

definition env_or_default :: "string option \<Rightarrow> string" where
  "env_or_default env_arg = (case env_arg of None \<Rightarrow> ''dev'' | Some e \<Rightarrow> e)"

text \<open>
  \<^verbatim>\<open>sendChunkToSQS(chunk, env = "dev")\<close>. The call is recorded whether or not the
  queue accepts it.
\<close>

definition sendChunkToSQS ::
  "ingest_env \<Rightarrow> row list \<Rightarrow> string option \<Rightarrow> ingest_state \<Rightarrow> ingest_state \<times> (error + unit)" where
  "sendChunkToSQS E chunk env_arg st =
     (let env = env_or_default env_arg;
          entries = map (mk_entry (now E) (ticks st) env) (enumerate 0 chunk);
          st' = \<lparr> calls = calls st @ [entries], ticks = ticks st + 2 * length chunk \<rparr>
      in (st', if sqs_ok E (length (calls st)) then Inr () else Inl SQSError))"

text \<open>
  The \<^verbatim>\<open>for await (const row of stream)\<close> loop: \<open>rows\<close> is the buffer, flushed and
  cleared when it reaches \<^const>\<open>CHUNK_SIZE\<close>. A failed send leaves the loop.
\<close>

fun for_await ::
  "ingest_env \<Rightarrow> string option \<Rightarrow> row list \<Rightarrow> row list \<Rightarrow> ingest_state
     \<Rightarrow> ingest_state \<times> (error + row list)" where
  "for_await E env [] rows st = (st, Inr rows)"
| "for_await E env (r # stream) rows st =
     (let rows' = rows @ [r] in
      if length rows' = CHUNK_SIZE
      then (case sendChunkToSQS E rows' env st of
              (st', Inl e) \<Rightarrow> (st', Inl e)
            | (st', Inr _) \<Rightarrow> for_await E env stream [] st')
      else for_await E env stream rows' st)"

definition success :: response where
  "success = \<lparr> statusCode = 200, body = ''File processed and sent to SQS successfully.'' \<rparr>"

definition failure :: response where
  "failure = \<lparr> statusCode = 500, body = ''Error processing file.'' \<rparr>"

text \<open>The body of the handler's \<^verbatim>\<open>try\<close> block.\<close>

definition try_block ::
  "ingest_env \<Rightarrow> string \<Rightarrow> string \<Rightarrow> string option \<Rightarrow> ingest_state
     \<Rightarrow> ingest_state \<times> (error + response)" where
  "try_block E bucketName objectKey env st =
     (case s3_get E bucketName objectKey of
        None \<Rightarrow> (st, Inl S3Error)
      | Some csvData \<Rightarrow>
          (case csvParser E csvData of (stream, broken) \<Rightarrow>
             (case for_await E env stream [] st of
                (st', Inl e) \<Rightarrow> (st', Inl e)
              | (st', Inr rows) \<Rightarrow>
                  if broken then (st', Inl ParseError)
                  else if length rows > 0
                  then (case sendChunkToSQS E rows env st' of
                          (st'', Inl e) \<Rightarrow> (st'', Inl e)
                        | (st'', Inr _) \<Rightarrow> (st'', Inr success))
                  else (st', Inr success))))"

definition derive_env :: "string \<Rightarrow> string option" where
  "derive_env bucketName = nth_opt (split_on CHR ''-'' bucketName) 1"

definition start :: ingest_state where
  "start = \<lparr> calls = [], ticks = 0 \<rparr>"

text \<open>
  \<^verbatim>\<open>exports.handler\<close> of the ingestion function. The result is \<open>Inr\<close> the response
  returned, or \<open>Inl\<close> the exception the invocation ends with: the reads of the event and
  \<^verbatim>\<open>decodeURIComponent\<close> come before the \<^verbatim>\<open>try\<close>.
\<close>

definition handler :: "ingest_env \<Rightarrow> s3_event \<Rightarrow> ingest_state \<times> (error + response)" where
  "handler E event =
     (case Records event of
        None \<Rightarrow> (start, Inl TypeError)
      | Some [] \<Rightarrow> (start, Inl TypeError)
      | Some (r # _) \<Rightarrow>
          (let bucketName = bucket_name r in
           case decodeURIComponent E (object_key r) of
             None \<Rightarrow> (start, Inl URIError)
           | Some objectKey \<Rightarrow>
               (let env = derive_env bucketName in
                case try_block E bucketName objectKey env start of
                  (st, Inl e) \<Rightarrow> (st, Inr failure)
                | (st, Inr resp) \<Rightarrow> (st, Inr resp))))"

text \<open>
  Modelled from the spec: the lines of the input file. The CSV parser is the third-party
  \<^verbatim>\<open>csv-parser\<close> package, which is not part of the repository; the spec speaks of a
  "header line" and of "data lines". A line ends at a line feed; the last line may lack it.
\<close>

definition lines_of :: "string \<Rightarrow> string list" where
  "lines_of text =
     (let ps = split_on (CHR 0x0A) text in if last ps = [] then butlast ps else ps)"

text \<open>
  Modelled from the spec: the rows of the input file. The spec has the parser "parse as
  delimited text with a header row; produce one Row per data line, preserving parse
  order", a row being a "mapping of column name to string value, produced by parsing one
  line of the input file against its header line". Cells end at a comma.
\<close>

definition csv_rows :: "string \<Rightarrow> row list" where
  "csv_rows text =
     (case lines_of text of
        [] \<Rightarrow> []
      | header # data \<Rightarrow>
          map (\<lambda>l. zip (split_on CHR '','' header) (split_on CHR '','' l)) data)"

text \<open>
  Modelled from the spec: the stream of the CSV parser, which emits the rows of the text
  and then ends without an error.
\<close>

definition csv_parser_model :: "string \<Rightarrow> row list \<times> bool" where
  "csv_parser_model text = (csv_rows text, False)"

section \<open>The consumer function (queue to database)\<close>

record db_config =
  host :: string
  user :: string
  password :: string
  database :: string

text \<open>
  The state a consumer process keeps between invocations, \<^verbatim>\<open>dbConfigCache\<close>, and the
  parameter-store requests it has issued so far (name, \<^verbatim>\<open>WithDecryption\<close>).
\<close>

record process_state =
  dbConfigCache :: "string \<rightharpoonup> db_config"
  lookups :: "(string \<times> bool) list"

text \<open>
  \<^verbatim>\<open>getParameter(name, withDecryption)\<close>; \<open>ssm name withDecryption\<close> is the value the
  parameter store answers with, \<^const>\<open>None\<close> when the request throws.
\<close>

definition getParameter ::
  "(string \<Rightarrow> bool \<Rightarrow> string option) \<Rightarrow> string \<Rightarrow> bool \<Rightarrow> process_state
     \<Rightarrow> process_state \<times> (error + string)" where
  "getParameter ssm name withDecryption st =
     (st\<lparr> lookups := lookups st @ [(name, withDecryption)] \<rparr>,
      case ssm name withDecryption of None \<Rightarrow> Inl SSMError | Some v \<Rightarrow> Inr v)"

text \<open>
  \<^verbatim>\<open>getDatabaseConfig(env)\<close>. The four requests of the \<^verbatim>\<open>Promise.all\<close> are all
  issued, in the order of the array; the cache is written only when all four resolve.
\<close>

definition getDatabaseConfig ::
  "(string \<Rightarrow> bool \<Rightarrow> string option) \<Rightarrow> string \<Rightarrow> process_state
     \<Rightarrow> process_state \<times> (error + db_config)" where
  "getDatabaseConfig ssm env st =
     (case dbConfigCache st env of
        Some config \<Rightarrow> (st, Inr config)
      | None \<Rightarrow>
          (case getParameter ssm (''/'' @ env @ ''/MYSQL_HOST'') True st of (st1, h) \<Rightarrow>
           case getParameter ssm (''/'' @ env @ ''/MYSQL_USER'') True st1 of (st2, u) \<Rightarrow>
           case getParameter ssm (''/'' @ env @ ''/MYSQL_PASSWORD'') True st2 of (st3, p) \<Rightarrow>
           case getParameter ssm (''/'' @ env @ ''/MYSQL_DATABASE'') True st3 of (st4, d) \<Rightarrow>
             (case (h, u, p, d) of
                (Inr h', Inr u', Inr p', Inr d') \<Rightarrow>
                  (let config = \<lparr> host = h', user = u', password = p', database = d' \<rparr>
                   in (st4\<lparr> dbConfigCache := (dbConfigCache st4)(env \<mapsto> config) \<rparr>, Inr config))
              | _ \<Rightarrow> (st4, Inl SSMError))))"

text \<open>
  A process serves one request for a configuration after the other; each request comes
  with the parameter store as it answers at that time.
\<close>

fun requests ::
  "((string \<Rightarrow> bool \<Rightarrow> string option) \<times> string) list \<Rightarrow> process_state \<Rightarrow> process_state" where
  "requests [] st = st"
| "requests ((ssm, env) # rs) st = requests rs (fst (getDatabaseConfig ssm env st))"

definition parameter_names :: "string \<Rightarrow> (string \<times> bool) list" where
  "parameter_names env =
     [(''/'' @ env @ ''/MYSQL_HOST'', True), (''/'' @ env @ ''/MYSQL_USER'', True),
      (''/'' @ env @ ''/MYSQL_PASSWORD'', True), (''/'' @ env @ ''/MYSQL_DATABASE'', True)]"

text \<open>
  A row of table \<^verbatim>\<open>users\<close>. \<^verbatim>\<open>name\<close> and the two timestamps hold the values bound
  to the statement's placeholders: what the message carried, \<^const>\<open>None\<close> for
  \<^verbatim>\<open>undefined\<close>.
\<close>

record user_row =
  u_id :: string
  u_name :: "json option"
  u_createdAt :: "json option"
  u_updatedAt :: "json option"

text \<open>
  The statement of \<^verbatim>\<open>processRecord\<close>,
  \<^verbatim>\<open>INSERT INTO users (id, name, createdAt, updatedAt) VALUES (UUID(), ?, ?, ?)
  ON DUPLICATE KEY UPDATE updatedAt = VALUES(updatedAt)\<close>, on the rows of the table. The
  table's declaration is not in the repository, so its keys are a parameter: \<open>dup new old\<close>
  says that \<open>new\<close> has the value of \<open>old\<close> in the primary key or in a unique index. The
  first such row is updated; when there is none the new row is added.
\<close>

fun upsert :: "(user_row \<Rightarrow> user_row \<Rightarrow> bool) \<Rightarrow> user_row \<Rightarrow> user_row list \<Rightarrow> user_row list" where
  "upsert dup new [] = [new]"
| "upsert dup new (old # tbl) =
     (if dup new old then old\<lparr> u_updatedAt := u_updatedAt new \<rparr> # tbl
      else old # upsert dup new tbl)"

record sqs_record =
  rec_body :: string
  receiptHandle :: string

text \<open>
  What the database, the queue and the connection pool hold: the committed rows of
  \<^verbatim>\<open>users\<close>, the working copy of an open transaction, the receipt handles of the
  messages still on the queue, and the number of connections taken from the pool.
\<close>

record world =
  users :: "user_row list"
  open_tx :: "user_row list option"
  queue :: "string list"
  held :: nat

text \<open>
  How the services answer during one \<^verbatim>\<open>processRecord\<close>: for each awaited call whether
  it resolves, and the value \<^verbatim>\<open>UUID()\<close> generates.
\<close>

record answers =
  getConnection_ok :: bool
  beginTransaction_ok :: bool
  execute_ok :: bool
  deleteMessage_ok :: bool
  commit_ok :: bool
  rollback_ok :: bool
  uuid :: string

text \<open>Property access \<^verbatim>\<open>v.k\<close> on a value that is not \<^verbatim>\<open>null\<close>.\<close>

definition get_prop :: "json \<Rightarrow> string \<Rightarrow> json option" where
  "get_prop v k = (case v of JObject ms \<Rightarrow> map_of ms k | _ \<Rightarrow> None)"

text \<open>
  \<^verbatim>\<open>const { name, timestamp } = payload.data\<close>: a \<^verbatim>\<open>TypeError\<close> when the payload
  is \<^verbatim>\<open>null\<close> or its \<^verbatim>\<open>data\<close> is \<^verbatim>\<open>null\<close> or \<^verbatim>\<open>undefined\<close>.
\<close>

definition destructure :: "json \<Rightarrow> (json option \<times> json option) option" where
  "destructure payload =
     (if payload = JNull then None
      else (case get_prop payload ''data'' of
              None \<Rightarrow> None
            | Some d \<Rightarrow>
                if d = JNull then None
                else Some (get_prop d ''name'', get_prop d ''timestamp'')))"

text \<open>
  The \<^verbatim>\<open>try\<close> block of \<^verbatim>\<open>processRecord\<close>, in the order of the source: begin,
  execute, delete the message, commit. A call that fails changes nothing.
\<close>

definition transaction ::
  "(user_row \<Rightarrow> user_row \<Rightarrow> bool) \<Rightarrow> answers \<Rightarrow> sqs_record \<Rightarrow> json option \<Rightarrow> json option
     \<Rightarrow> world \<Rightarrow> world \<times> (error + unit)" where
  "transaction dup A record name timestamp w =
     (if \<not> beginTransaction_ok A then (w, Inl DBError)
      else let w1 = w\<lparr> open_tx := Some (users w) \<rparr> in
      if \<not> execute_ok A then (w1, Inl DBError)
      else let new = \<lparr> u_id = uuid A, u_name = name,
                        u_createdAt = timestamp, u_updatedAt = timestamp \<rparr>;
               w2 = w1\<lparr> open_tx := map_option (upsert dup new) (open_tx w1) \<rparr> in
      if \<not> deleteMessage_ok A then (w2, Inl SQSError)
      else let w3 = w2\<lparr> queue := removeAll (receiptHandle record) (queue w2) \<rparr> in
      if \<not> commit_ok A then (w3, Inl DBError)
      else (w3\<lparr> users := (case open_tx w3 of None \<Rightarrow> users w3 | Some t \<Rightarrow> t),
                 open_tx := None \<rparr>, Inr ()))"

text \<open>
  \<^verbatim>\<open>processRecord(pool, record)\<close>; \<open>parse\<close> is \<^verbatim>\<open>JSON.parse\<close>, \<^const>\<open>None\<close> when
  it throws. The \<^verbatim>\<open>catch\<close> rolls back and rethrows, the \<^verbatim>\<open>finally\<close> releases the
  connection.
\<close>

definition processRecord ::
  "(user_row \<Rightarrow> user_row \<Rightarrow> bool) \<Rightarrow> (string \<Rightarrow> json option) \<Rightarrow> answers \<Rightarrow> sqs_record
     \<Rightarrow> world \<Rightarrow> world \<times> (error + unit)" where
  "processRecord dup parse A record w =
     (case parse (rec_body record) of
        None \<Rightarrow> (w, Inl SyntaxError)
      | Some payload \<Rightarrow>
          (case destructure payload of
             None \<Rightarrow> (w, Inl TypeError)
           | Some (name, timestamp) \<Rightarrow>
               if \<not> getConnection_ok A then (w, Inl DBError)
               else
                 (case transaction dup A record name timestamp (w\<lparr> held := held w + 1 \<rparr>) of
                    (w', Inr _) \<Rightarrow> (w'\<lparr> held := held w' - 1 \<rparr>, Inr ())
                  | (w', Inl e) \<Rightarrow>
                      if rollback_ok A
                      then (w'\<lparr> open_tx := None, held := held w' - 1 \<rparr>, Inl e)
                      else (w'\<lparr> held := held w' - 1 \<rparr>, Inl DBError))))"

section \<open>Sample inputs\<close>

text \<open>
  An upload notification with one record, two small files (header \<^verbatim>\<open>id,name\<close>; the
  first with eleven data lines whose \<^verbatim>\<open>id\<close> cell is empty, the second with two data
  lines), and services that return the given text for every object, decode every key to
  itself, accept or reject every batch, and whose clock stands still.
\<close>

definition upload :: "string \<Rightarrow> s3_event" where
  "upload bucket = \<lparr> Records = Some [\<lparr> bucket_name = bucket, object_key = ''batch1.csv'' \<rparr>] \<rparr>"

definition al :: string where
  "al = '',al'' @ [CHR 0x0A]"

definition eleven_lines :: string where
  "eleven_lines =
     ''id,name'' @ [CHR 0x0A] @ al @ al @ al @ al @ al @ al @ al @ al @ al @ al @ al"

definition two_lines :: string where
  "two_lines = ''id,name'' @ [CHR 0x0A] @ ''7,bob'' @ [CHR 0x0A] @ ''8,eve'' @ [CHR 0x0A]"

definition services :: "string \<Rightarrow> bool \<Rightarrow> ingest_env" where
  "services text accept =
     \<lparr> s3_get = (\<lambda>bucket key. Some text), decodeURIComponent = Some,
       csvParser = csv_parser_model, sqs_ok = (\<lambda>n. accept), now = (\<lambda>n. 1700000000000) \<rparr>"

text \<open>
  A parameter store that has every parameter, and one that lacks the password; a process
  that has not cached anything yet.
\<close>

definition ssm_full :: "string \<Rightarrow> bool \<Rightarrow> string option" where
  "ssm_full name withDecryption = Some (''value of '' @ name)"

definition ssm_partial :: "string \<Rightarrow> bool \<Rightarrow> string option" where
  "ssm_partial name withDecryption =
     (if name = ''/dev/MYSQL_PASSWORD'' then None else Some (''value of '' @ name))"

definition fresh :: process_state where
  "fresh = \<lparr> dbConfigCache = Map.empty, lookups = [] \<rparr>"

text \<open>
  A queue message as the ingestion function writes it, its parsed payload, a world with
  that message on the queue and an empty table, and services where only the commit fails.
  In the sample table \<^verbatim>\<open>name\<close> is the unique key.
\<close>

definition bob_payload :: json where
  "bob_payload =
     JObject [(''data'', JObject [(''name'', JString ''bob''), (''timestamp'', JString ''t1'')]),
              (''env'', JString ''dev'')]"

definition bob_record :: sqs_record where
  "bob_record = \<lparr> rec_body = JSON_stringify bob_payload, receiptHandle = ''rh-1'' \<rparr>"

definition parse_bob :: "string \<Rightarrow> json option" where
  "parse_bob text = (if text = JSON_stringify bob_payload then Some bob_payload else None)"

definition one_message :: world where
  "one_message = \<lparr> users = [], open_tx = None, queue = [''rh-1''], held = 0 \<rparr>"

definition commit_fails :: answers where
  "commit_fails =
     \<lparr> getConnection_ok = True, beginTransaction_ok = True, execute_ok = True,
       deleteMessage_ok = True, commit_ok = False, rollback_ok = True, uuid = ''u-1'' \<rparr>"

definition same_name :: "user_row \<Rightarrow> user_row \<Rightarrow> bool" where
  "same_name a b = (u_name a = u_name b)"

definition bob_row :: "string \<Rightarrow> string \<Rightarrow> user_row" where
  "bob_row generated timestamp =
     \<lparr> u_id = generated, u_name = Some (JString ''bob''),
       u_createdAt = Some (JString timestamp), u_updatedAt = Some (JString timestamp) \<rparr>"

text \<open>
  A table whose primary key is \<^verbatim>\<open>id\<close> and that has a unique index on \<^verbatim>\<open>name\<close>: a new
  row duplicates an old one when it has its id or its name. And a row of another user.
\<close>

definition id_or_name :: "user_row \<Rightarrow> user_row \<Rightarrow> bool" where
  "id_or_name a b = (u_id a = u_id b \<or> u_name a = u_name b)"

definition alice_row :: user_row where
  "alice_row =
     \<lparr> u_id = ''u-0'', u_name = Some (JString ''alice''),
       u_createdAt = Some (JString ''t0''), u_updatedAt = Some (JString ''t0'') \<rparr>"

definition nameless :: row where
  "nameless = [(''id'', []), (''name'', ''al'')]"

section \<open>Batching of the ingestion function\<close>

lemma body_mk_entry: "MessageBody (mk_entry clock t env ir) = message_body (snd ir) env"
  by (cases ir) (simp add: mk_entry_def)

lemma bodies_of_batch:
  "map MessageBody (map (mk_entry clock t env) (enumerate 0 chunk)) = map (\<lambda>r. message_body r env) chunk"
proof -
  have "map MessageBody (map (mk_entry clock t env) (enumerate 0 chunk))
        = map ((\<lambda>r. message_body r env) \<circ> snd) (enumerate 0 chunk)"
    by (simp add: body_mk_entry comp_def)
  also have "\<dots> = map (\<lambda>r. message_body r env) (map snd (enumerate 0 chunk))"
    by (simp only: map_map)
  finally show ?thesis by (simp only: map_snd_enumerate)
qed

lemma send_calls:
  "calls (fst (sendChunkToSQS E chunk env st)) =
     calls st @ [map (mk_entry (now E) (ticks st) (env_or_default env)) (enumerate 0 chunk)]"
  by (simp add: sendChunkToSQS_def Let_def)

lemma send_result:
  "snd (sendChunkToSQS E chunk env st) =
     (if sqs_ok E (length (calls st)) then Inr () else Inl SQSError)"
  by (simp add: sendChunkToSQS_def Let_def)

lemma for_await_ok:
  assumes ok: "\<forall>n. sqs_ok E n"
  shows "length rows < CHUNK_SIZE \<Longrightarrow>
    \<exists>st' rows' new. for_await E env stream rows st = (st', Inr rows')
      \<and> length rows' < CHUNK_SIZE
      \<and> calls st' = calls st @ new
      \<and> (\<forall>b\<in>set new. length b = CHUNK_SIZE)
      \<and> map MessageBody (concat new) @ map (\<lambda>r. message_body r (env_or_default env)) rows'
          = map (\<lambda>r. message_body r (env_or_default env)) (rows @ stream)
      \<and> CHUNK_SIZE * length new + length rows' = length rows + length stream"
proof (induction stream arbitrary: rows st)
  case Nil
  then show ?case by simp
next
  case (Cons r stream)
  let ?rows = "rows @ [r]"
  show ?case
  proof (cases "length ?rows = CHUNK_SIZE")
    case True
    obtain st1 where st1: "sendChunkToSQS E ?rows env st = (st1, Inr ())"
      using send_result [of E ?rows env st] ok by (cases "sendChunkToSQS E ?rows env st") auto
    let ?b = "map (mk_entry (now E) (ticks st) (env_or_default env)) (enumerate 0 ?rows)"
    have c1: "calls st1 = calls st @ [?b]"
      using send_calls [of E ?rows env st] st1 by simp
    have "length ([]::row list) < CHUNK_SIZE" by (simp add: CHUNK_SIZE_def)
    from Cons.IH [OF this, of st1] obtain st' rows' new where
      run: "for_await E env stream [] st1 = (st', Inr rows')"
      and len: "length rows' < CHUNK_SIZE"
      and cs: "calls st' = calls st1 @ new"
      and full: "\<forall>b\<in>set new. length b = CHUNK_SIZE"
      and bodies: "map MessageBody (concat new) @ map (\<lambda>r. message_body r (env_or_default env)) rows'
          = map (\<lambda>r. message_body r (env_or_default env)) ([] @ stream)"
      and count: "CHUNK_SIZE * length new + length rows' = length ([]::row list) + length stream"
      by blast
    have r1: "for_await E env (r # stream) rows st = (st', Inr rows')"
      using True st1 run by (simp add: Let_def)
    have r2: "calls st' = calls st @ (?b # new)" using cs c1 by simp
    have r3: "\<forall>b\<in>set (?b # new). length b = CHUNK_SIZE" using full True by simp
    have r4: "map MessageBody (concat (?b # new)) @ map (\<lambda>r. message_body r (env_or_default env)) rows'
          = map (\<lambda>r. message_body r (env_or_default env)) (rows @ r # stream)"
      using bodies bodies_of_batch [of "now E" "ticks st" "env_or_default env" ?rows] by simp
    have r5: "CHUNK_SIZE * length (?b # new) + length rows' = length rows + length (r # stream)"
      using count True by simp
    from r1 len r2 r3 r4 r5 show ?thesis by blast
  next
    case False
    with Cons.prems have "length ?rows < CHUNK_SIZE" by simp
    from Cons.IH [OF this, of st] obtain st' rows' new where
      run: "for_await E env stream ?rows st = (st', Inr rows')"
      and rest: "length rows' < CHUNK_SIZE" "calls st' = calls st @ new"
        "\<forall>b\<in>set new. length b = CHUNK_SIZE"
        "map MessageBody (concat new) @ map (\<lambda>r. message_body r (env_or_default env)) rows'
          = map (\<lambda>r. message_body r (env_or_default env)) (?rows @ stream)"
        "CHUNK_SIZE * length new + length rows' = length ?rows + length stream"
      by blast
    have "for_await E env (r # stream) rows st = (st', Inr rows')"
      using False run by (simp add: Let_def)
    with rest show ?thesis by auto
  qed
qed

lemma try_block_ok:
  assumes fetch: "s3_get E bucket key = Some text"
    and parse: "csvParser E text = (rows, False)"
    and ok: "\<forall>n. sqs_ok E n"
  shows "\<exists>st. try_block E bucket key env start = (st, Inr success)
      \<and> length (calls st) = (length rows + 9) div 10
      \<and> (\<forall>b\<in>set (calls st). length b \<le> 10)
      \<and> map MessageBody (concat (calls st)) = map (\<lambda>r. message_body r (env_or_default env)) rows"
proof -
  have "length ([]::row list) < CHUNK_SIZE" by (simp add: CHUNK_SIZE_def)
  from for_await_ok [OF ok this, of env rows start] obtain st' rest new where
    run: "for_await E env rows [] start = (st', Inr rest)"
    and len: "length rest < 10"
    and cs: "calls st' = new"
    and full: "\<forall>b\<in>set new. length b = 10"
    and bodies: "map MessageBody (concat new) @ map (\<lambda>r. message_body r (env_or_default env)) rest
          = map (\<lambda>r. message_body r (env_or_default env)) rows"
    and count: "10 * length new + length rest = length rows"
    by (auto simp: CHUNK_SIZE_def start_def)
  show ?thesis
  proof (cases "rest = []")
    case True
    have "try_block E bucket key env start = (st', Inr success)"
      using fetch parse run True by (simp add: try_block_def)
    moreover have "length (calls st') = (length rows + 9) div 10"
      using count cs True by simp
    moreover have "\<forall>b\<in>set (calls st'). length b \<le> 10"
      using full cs by simp
    moreover have "map MessageBody (concat (calls st')) = map (\<lambda>r. message_body r (env_or_default env)) rows"
      using bodies cs True by simp
    ultimately show ?thesis by blast
  next
    case False
    obtain st2 where st2: "sendChunkToSQS E rest env st' = (st2, Inr ())"
      using send_result [of E rest env st'] ok by (cases "sendChunkToSQS E rest env st'") auto
    let ?b = "map (mk_entry (now E) (ticks st') (env_or_default env)) (enumerate 0 rest)"
    have c2: "calls st2 = new @ [?b]"
      using send_calls [of E rest env st'] st2 cs by simp
    have "try_block E bucket key env start = (st2, Inr success)"
      using fetch parse run False st2 by (simp add: try_block_def)
    moreover have "length (calls st2) = (length rows + 9) div 10"
    proof -
      have "0 < length rest" using False by simp
      with len count have "(length rows + 9) div 10 = length new + 1" by arith
      with c2 show ?thesis by simp
    qed
    moreover have "\<forall>b\<in>set (calls st2). length b \<le> 10"
      using full len c2 by auto
    moreover have "map MessageBody (concat (calls st2)) = map (\<lambda>r. message_body r (env_or_default env)) rows"
      using bodies c2 bodies_of_batch [of "now E" "ticks st'" "env_or_default env" rest] by simp
    ultimately show ?thesis by blast
  qed
qed

lemma handler_ok:
  assumes "Records event = Some (r # rs)"
    and "decodeURIComponent E (object_key r) = Some key"
    and "s3_get E (bucket_name r) key = Some text"
    and "csvParser E text = (rows, False)"
    and "\<forall>n. sqs_ok E n"
  shows "snd (handler E event) = Inr success
    \<and> length (calls (fst (handler E event))) = (length rows + 9) div 10
    \<and> (\<forall>b\<in>set (calls (fst (handler E event))). length b \<le> 10)
    \<and> map MessageBody (concat (calls (fst (handler E event))))
        = map (\<lambda>row. message_body row (env_or_default (derive_env (bucket_name r)))) rows"
proof -
  from try_block_ok [OF assms(3) assms(4) assms(5), of "derive_env (bucket_name r)"]
  obtain st where
    tb: "try_block E (bucket_name r) key (derive_env (bucket_name r)) start = (st, Inr success)"
    and props: "length (calls st) = (length rows + 9) div 10"
      "\<forall>b\<in>set (calls st). length b \<le> 10"
      "map MessageBody (concat (calls st))
         = map (\<lambda>row. message_body row (env_or_default (derive_env (bucket_name r)))) rows"
    by blast
  have "handler E event = (st, Inr success)"
    using assms(1) assms(2) tb by (simp add: handler_def Let_def)
  with props show ?thesis by simp
qed

subsection \<open>The sample runs\<close>

lemmas ingest_defs = handler_def upload_def services_def try_block_def csv_parser_model_def
  derive_env_def nth_opt_def start_def sendChunkToSQS_def CHUNK_SIZE_def
  env_or_default_def Let_def failure_def success_def

lemma ten: "replicate 10 x = [x, x, x, x, x, x, x, x, x, x]"
  by (simp add: numeral_eq_Suc)

lemma eleven_parsed: "csv_rows eleven_lines = nameless # replicate 10 nameless"
  by (simp add: csv_rows_def lines_of_def eleven_lines_def al_def nameless_def ten)

lemma two_parsed:
  "csv_rows two_lines = [[(''id'', ''7''), (''name'', ''bob'')], [(''id'', ''8''), (''name'', ''eve'')]]"
  by (simp add: csv_rows_def lines_of_def two_lines_def)

lemma eleven_rejected:
  "handler (services eleven_lines False) (upload ''myapp-dev-data'') =
     (\<lparr> calls = [map (mk_entry (\<lambda>n. 1700000000000) 0 ''dev'') (enumerate 0 (replicate 10 nameless))],
        ticks = 20 \<rparr>, Inr failure)"
  by (simp add: ingest_defs eleven_parsed ten)

lemma eleven_accepted:
  "handler (services eleven_lines True) (upload ''myapp-dev-data'') =
     (\<lparr> calls = [map (mk_entry (\<lambda>n. 1700000000000) 0 ''dev'') (enumerate 0 (replicate 10 nameless)),
                 map (mk_entry (\<lambda>n. 1700000000000) 20 ''dev'') (enumerate 0 [nameless])],
        ticks = 22 \<rparr>, Inr success)"
  by (simp add: ingest_defs eleven_parsed ten)

subsection \<open>Number and contents of the batches\<close>

text \<open>
  A send that the queue rejects ends the run: with eleven rows and a queue that rejects the
  first batch, one call is issued, not two.
\<close>

theorem rejected_send_counterexample:
  "length (calls (fst (handler (services eleven_lines False) (upload ''myapp-dev-data''))))
     \<noteq> (length (fst (csvParser (services eleven_lines False) eleven_lines)) + 9) div 10"
  by (simp add: eleven_rejected) (simp add: services_def csv_parser_model_def eleven_parsed)

text \<open>
  C1, amended: for every input file whose parse yields \<open>R\<close> data rows, provided every
  batch send succeeds, the ingestion handler issues exactly \<open>ceil(R / 10)\<close> batch-send
  calls, each carrying at most 10 entries, and the bodies of all sent entries, in send
  order, are the envelopes of the parsed rows in parse order.
\<close>

theorem ingestion_batches:
  assumes "Records event = Some (r # rs)"
    and "decodeURIComponent E (object_key r) = Some key"
    and "s3_get E (bucket_name r) key = Some text"
    and "csvParser E text = (rows, False)"
    and "\<forall>n. sqs_ok E n"
  shows "length (calls (fst (handler E event))) = (length rows + 9) div 10
    \<and> (\<forall>b\<in>set (calls (fst (handler E event))). length b \<le> 10)
    \<and> map MessageBody (concat (calls (fst (handler E event))))
        = map (\<lambda>row. message_body row (env_or_default (derive_env (bucket_name r)))) rows"
proof -
  from try_block_ok [OF assms(3) assms(4) assms(5), of "derive_env (bucket_name r)"]
  obtain st where
    tb: "try_block E (bucket_name r) key (derive_env (bucket_name r)) start = (st, Inr success)"
    and count: "length (calls st) = (length rows + 9) div 10"
    and sizes: "\<forall>b\<in>set (calls st). length b \<le> 10"
    and bodies: "map MessageBody (concat (calls st))
         = map (\<lambda>row. message_body row (env_or_default (derive_env (bucket_name r)))) rows"
    by blast
  have "handler E event = (st, Inr success)"
    using assms(1) assms(2) tb by (simp add: handler_def Let_def)
  then have "fst (handler E event) = st" by simp
  with count sizes bodies show ?thesis by simp
qed

theorem ingestion_batches_witness:
  "csvParser (services eleven_lines True) eleven_lines = (nameless # replicate 10 nameless, False)
   \<and> length (calls (fst (handler (services eleven_lines True) (upload ''myapp-dev-data'')))) = 2
   \<and> map MessageBody (concat (calls (fst (handler (services eleven_lines True) (upload ''myapp-dev-data'')))))
       = map (\<lambda>row. message_body row ''dev'') (nameless # replicate 10 nameless)"
  using ingestion_batches [of "upload ''myapp-dev-data''"
      "\<lparr> bucket_name = ''myapp-dev-data'', object_key = ''batch1.csv'' \<rparr>" "[]"
      "services eleven_lines True" "''batch1.csv''" eleven_lines "nameless # replicate 10 nameless"]
  by (simp add: upload_def services_def csv_parser_model_def eleven_parsed derive_env_def
      nth_opt_def env_or_default_def)

subsection \<open>Empty and header-only files\<close>

lemma split_on_no_sep: "c \<notin> set s \<Longrightarrow> split_on c s = [s]"
  by (induction s) auto

lemma split_on_sep_last: "c \<notin> set s \<Longrightarrow> split_on c (s @ [c]) = [s, []]"
  by (induction s) auto

lemma csv_rows_header_only:
  assumes "CHR 0x0A \<notin> set h"
  shows "csv_rows h = []" and "csv_rows (h @ [CHR 0x0A]) = []"
  using assms
  by (cases "h = []"; simp add: csv_rows_def lines_of_def split_on_no_sep split_on_sep_last)+

text \<open>
  C7: for every input file that is empty or contains only a header line (with or without
  its line feed), the ingestion handler sends no batch and returns status 200.
\<close>

theorem empty_or_header_only:
  assumes "Records event = Some (r # rs)"
    and "decodeURIComponent E (object_key r) = Some key"
    and "s3_get E (bucket_name r) key = Some text"
    and "csvParser E = csv_parser_model"
    and "text = [] \<or> (CHR 0x0A \<notin> set h \<and> (text = h \<or> text = h @ [CHR 0x0A]))"
  shows "handler E event = (start, Inr success) \<and> calls start = [] \<and> statusCode success = 200"
proof -
  from assms(5) have "csv_rows text = []"
    using csv_rows_header_only [of h] csv_rows_header_only(1) [of "[]"] by auto
  with assms(4) have "csvParser E text = ([], False)" by (simp add: csv_parser_model_def)
  with assms(3) have "try_block E (bucket_name r) key (derive_env (bucket_name r)) start = (start, Inr success)"
    by (simp add: try_block_def)
  with assms(1,2) show ?thesis by (simp add: handler_def start_def success_def)
qed

theorem empty_or_header_only_witness:
  "handler (services (''id,name'' @ [CHR 0x0A]) True) (upload ''myapp-dev-data'')
     = (start, Inr success)"
  using empty_or_header_only [of "upload ''myapp-dev-data''"
      "\<lparr> bucket_name = ''myapp-dev-data'', object_key = ''batch1.csv'' \<rparr>" "[]"
      "services (''id,name'' @ [CHR 0x0A]) True" "''batch1.csv''" "''id,name'' @ [CHR 0x0A]" "''id,name''"]
  by (simp add: upload_def services_def)

section \<open>The entries of a batch\<close>

lemma digit_in: "digit n \<in> set ''0123456789''"
  unfolding digit_def by (rule nth_mem) simp

lemma digit_not_dash: "digit n \<noteq> CHR ''-''"
  using digit_in [of n] by auto

lemma digit_inj:
  assumes "m < 10" and "n < 10" and "digit m = digit n"
  shows "m = n"
proof -
  have m: "m \<in> {0, 1, 2, 3, 4, 5, 6, 7, 8, 9}" using assms(1) by auto
  have n: "n \<in> {0, 1, 2, 3, 4, 5, 6, 7, 8, 9}" using assms(2) by auto
  from m n assms(3) show ?thesis by (auto simp: digit_def)
qed

lemma show_nat_not_Nil: "show_nat n \<noteq> []"
  by (subst show_nat.simps) simp

lemma show_nat_no_dash: "CHR ''-'' \<notin> set (show_nat n)"
proof (induction n rule: show_nat.induct)
  case (1 n)
  show ?case
  proof (cases "n < 10")
    case True
    then show ?thesis by (subst show_nat.simps) (simp add: digit_not_dash [symmetric])
  next
    case False
    with 1 show ?thesis by (subst show_nat.simps) (simp add: digit_not_dash [symmetric])
  qed
qed

lemma digit_mod: "digit (n mod 10) = digit n"
  by (simp add: digit_def)

lemma show_nat_inj: "show_nat m = show_nat n \<Longrightarrow> m = n"
proof (induction m arbitrary: n rule: show_nat.induct)
  case (1 m)
  show ?case
  proof (cases "m < 10")
    case m: True
    show ?thesis
    proof (cases "n < 10")
      case True
      with m "1.prems" have "digit m = digit n"
        by (simp add: show_nat.simps [of m] show_nat.simps [of n])
      with m True show ?thesis by (rule digit_inj)
    next
      case False
      with m "1.prems" have "[digit m] = show_nat (n div 10) @ [digit n]"
        by (simp add: show_nat.simps [of m] show_nat.simps [of n])
      then have "show_nat (n div 10) = []" by simp
      then show ?thesis by (simp add: show_nat_not_Nil)
    qed
  next
    case m: False
    show ?thesis
    proof (cases "n < 10")
      case True
      with m "1.prems" have "show_nat (m div 10) @ [digit m] = [digit n]"
        by (simp add: show_nat.simps [of m] show_nat.simps [of n])
      then have "show_nat (m div 10) = []" by simp
      then show ?thesis by (simp add: show_nat_not_Nil)
    next
      case False
      with m "1.prems" have eq: "show_nat (m div 10) @ [digit m] = show_nat (n div 10) @ [digit n]"
        by (simp add: show_nat.simps [of m] show_nat.simps [of n])
      then have "show_nat (m div 10) = show_nat (n div 10)" and d: "digit m = digit n" by simp_all
      with "1.IH" m have q: "m div 10 = n div 10" by blast
      from d have "digit (m mod 10) = digit (n mod 10)" by (simp add: digit_mod)
      then have "m mod 10 = n mod 10" by (intro digit_inj) simp_all
      with q show ?thesis by (metis div_mult_mod_eq)
    qed
  qed
qed

lemma takeWhile_dash:
  "CHR ''-'' \<notin> set xs \<Longrightarrow> takeWhile (\<lambda>c. c \<noteq> CHR ''-'') (xs @ CHR ''-'' # ys) = xs"
  by (induction xs) auto

lemma Id_index:
  assumes "Id (mk_entry clock t env (i, r)) = Id (mk_entry clock' t' env' (j, r'))"
  shows "i = j"
proof -
  from assms have "show_nat i @ CHR ''-'' # show_int (clock (t + 2 * i))
      = show_nat j @ CHR ''-'' # show_int (clock' (t' + 2 * j))"
    by (simp add: mk_entry_def)
  then have "takeWhile (\<lambda>c. c \<noteq> CHR ''-'') (show_nat i @ CHR ''-'' # show_int (clock (t + 2 * i)))
      = takeWhile (\<lambda>c. c \<noteq> CHR ''-'') (show_nat j @ CHR ''-'' # show_int (clock' (t' + 2 * j)))"
    by simp
  then have "show_nat i = show_nat j"
    by (simp only: takeWhile_dash [OF show_nat_no_dash])
  then show ?thesis by (rule show_nat_inj)
qed

lemma batch_nth:
  "i < length chunk \<Longrightarrow>
     map (mk_entry clock t env) (enumerate 0 chunk) ! i = mk_entry clock t env (i, chunk ! i)"
  by (simp add: nth_enumerate_eq)

lemma batch_distinct_Id: "distinct (map Id (map (mk_entry clock t env) (enumerate 0 chunk)))"
proof -
  let ?b = "map (mk_entry clock t env) (enumerate 0 chunk)"
  have "\<And>i j. i < length chunk \<Longrightarrow> j < length chunk \<Longrightarrow> i \<noteq> j \<Longrightarrow> Id (?b ! i) \<noteq> Id (?b ! j)"
    using Id_index by (auto simp only: batch_nth)
  then show ?thesis by (simp add: distinct_conv_nth)
qed

lemma for_await_batches:
  "for_await E env stream rows st = (st', res) \<Longrightarrow> b \<in> set (calls st') \<Longrightarrow>
     b \<in> set (calls st) \<or>
     (\<exists>t chunk. set chunk \<subseteq> set rows \<union> set stream
        \<and> b = map (mk_entry (now E) t (env_or_default env)) (enumerate 0 chunk))"
proof (induction stream arbitrary: rows st)
  case Nil
  then show ?case by simp
next
  case (Cons r stream)
  let ?rows = "rows @ [r]"
  show ?case
  proof (cases "length ?rows = CHUNK_SIZE")
    case full: True
    let ?new = "map (mk_entry (now E) (ticks st) (env_or_default env)) (enumerate 0 ?rows)"
    obtain st1 r1 where s1: "sendChunkToSQS E ?rows env st = (st1, r1)"
      by (cases "sendChunkToSQS E ?rows env st")
    have c1: "calls st1 = calls st @ [?new]"
      using send_calls [of E ?rows env st] s1 by simp
    have new: "\<exists>t chunk. set chunk \<subseteq> set rows \<union> set (r # stream)
        \<and> ?new = map (mk_entry (now E) t (env_or_default env)) (enumerate 0 chunk)"
      by (rule exI [of _ "ticks st"], rule exI [of _ ?rows]) auto
    show ?thesis
    proof (cases r1)
      case (Inl e)
      with Cons.prems full s1 have "st' = st1" by (simp add: Let_def)
      with Cons.prems(2) c1 new show ?thesis by auto
    next
      case (Inr u)
      with Cons.prems full s1 have "for_await E env stream [] st1 = (st', res)"
        by (simp add: Let_def)
      from Cons.IH [OF this Cons.prems(2)] c1 new show ?thesis by auto
    qed
  next
    case False
    with Cons.prems have "for_await E env stream ?rows st = (st', res)" by (simp add: Let_def)
    from Cons.IH [OF this Cons.prems(2)] show ?thesis by auto
  qed
qed

lemma for_await_rest:
  "for_await E env stream rows st = (st', Inr rest) \<Longrightarrow> set rest \<subseteq> set rows \<union> set stream"
proof (induction stream arbitrary: rows st)
  case Nil
  then show ?case by simp
next
  case (Cons r stream)
  show ?case
  proof (cases "length (rows @ [r]) = CHUNK_SIZE")
    case True
    obtain st1 r1 where s1: "sendChunkToSQS E (rows @ [r]) env st = (st1, r1)"
      by (cases "sendChunkToSQS E (rows @ [r]) env st")
    with Cons.prems True have "for_await E env stream [] st1 = (st', Inr rest)"
      by (cases r1) (simp_all add: Let_def)
    from Cons.IH [OF this] show ?thesis by auto
  next
    case False
    with Cons.prems have "for_await E env stream (rows @ [r]) st = (st', Inr rest)"
      by (simp add: Let_def)
    from Cons.IH [OF this] show ?thesis by auto
  qed
qed

lemma try_block_batches:
  assumes fetch: "s3_get E bucket key = Some text"
    and tb: "try_block E bucket key env start = (st, res)"
    and b: "b \<in> set (calls st)"
  shows "\<exists>t chunk. set chunk \<subseteq> set (fst (csvParser E text))
        \<and> b = map (mk_entry (now E) t (env_or_default env)) (enumerate 0 chunk)"
proof -
  obtain stream broken where p: "csvParser E text = (stream, broken)"
    by (cases "csvParser E text")
  obtain st1 r1 where f: "for_await E env stream [] start = (st1, r1)"
    by (cases "for_await E env stream [] start")
  have inv1: "\<exists>t chunk. set chunk \<subseteq> set stream
        \<and> b' = map (mk_entry (now E) t (env_or_default env)) (enumerate 0 chunk)"
    if "b' \<in> set (calls st1)" for b'
    using for_await_batches [OF f that] by (auto simp: start_def)
  show ?thesis
  proof (cases r1)
    case (Inl e)
    with fetch tb p f have "st = st1" by (simp add: try_block_def)
    with inv1 b p show ?thesis by simp
  next
    case (Inr rest)
    show ?thesis
    proof (cases "broken \<or> rest = []")
      case True
      with fetch tb p f Inr have "st = st1"
        by (auto simp: try_block_def split: if_splits)
      with inv1 b p show ?thesis by simp
    next
      case False
      obtain st2 r2 where s2: "sendChunkToSQS E rest env st1 = (st2, r2)"
        by (cases "sendChunkToSQS E rest env st1")
      with fetch tb p f Inr False have "st = st2"
        by (cases r2) (auto simp: try_block_def)
      with send_calls [of E rest env st1] s2
      have "calls st = calls st1 @ [map (mk_entry (now E) (ticks st1) (env_or_default env)) (enumerate 0 rest)]"
        by simp
      with b consider "b \<in> set (calls st1)"
        | "b = map (mk_entry (now E) (ticks st1) (env_or_default env)) (enumerate 0 rest)"
        by auto
      then show ?thesis
      proof cases
        case 1
        with inv1 p show ?thesis by simp
      next
        case 2
        from for_await_rest [of E env stream "[]" start st1 rest] f Inr
        have "set rest \<subseteq> set stream" by simp
        with 2 p show ?thesis by auto
      qed
    qed
  qed
qed

lemma handler_batches:
  assumes "Records event = Some (r # rs)"
    and "decodeURIComponent E (object_key r) = Some key"
    and "s3_get E (bucket_name r) key = Some text"
    and "b \<in> set (calls (fst (handler E event)))"
  shows "\<exists>t chunk. set chunk \<subseteq> set (fst (csvParser E text))
        \<and> b = map (mk_entry (now E) t (env_or_default (derive_env (bucket_name r)))) (enumerate 0 chunk)"
proof -
  obtain st res where tb: "try_block E (bucket_name r) key (derive_env (bucket_name r)) start = (st, res)"
    by (cases "try_block E (bucket_name r) key (derive_env (bucket_name r)) start")
  with assms(1,2) have "fst (handler E event) = st"
    by (cases res) (simp_all add: handler_def Let_def)
  with assms(4) have "b \<in> set (calls st)" by simp
  from try_block_batches [OF assms(3) tb this] show ?thesis .
qed

lemma derive_env_cases:
  "derive_env bucket = (case split_on CHR ''-'' bucket of p # t # ps \<Rightarrow> Some t | _ \<Rightarrow> None)"
  by (simp add: derive_env_def nth_opt_def split: list.splits)

lemma body_has_env:
  "message_body row env \<noteq> JSON_stringify (JObject [(''data'', row_json row)])"
  by (simp add: message_body_def)

lemma entry_of_batch:
  assumes "e \<in> set (map (mk_entry clock t env) (enumerate 0 chunk))"
  shows "\<exists>row\<in>set chunk. MessageBody e = message_body row env"
proof -
  from assms
  have "MessageBody e \<in> set (map MessageBody (map (mk_entry clock t env) (enumerate 0 chunk)))"
    by (simp only: set_map) (rule imageI)
  then have "MessageBody e \<in> set (map (\<lambda>r. message_body r env) chunk)"
    by (simp only: bodies_of_batch)
  then show ?thesis by auto
qed

text \<open>
  Two batches of one run can carry the same \<open>Id\<close>: the index starts again at 0 in every
  batch and the clock may not have advanced. And a row whose \<^verbatim>\<open>id\<close> cell is there but
  empty gets its deduplication id from the index.
\<close>

theorem entry_id_counterexample:
  "Id (calls (fst (handler (services eleven_lines True) (upload ''myapp-dev-data''))) ! 0 ! 0)
     = Id (calls (fst (handler (services eleven_lines True) (upload ''myapp-dev-data''))) ! 1 ! 0)
   \<and> map_of (fst (csvParser (services eleven_lines True) eleven_lines) ! 1) ''id'' = Some []
   \<and> MessageDeduplicationId
        (calls (fst (handler (services eleven_lines True) (upload ''myapp-dev-data''))) ! 0 ! 1)
     = ''dedup-1-1700000000000''"
  by (simp add: eleven_accepted) (simp add: services_def csv_parser_model_def eleven_parsed
       ten mk_entry_def id_or_index_def nameless_def show_nat.simps show_int_def digit_def)

text \<open>
  C6, amended: every queue message sent by the ingestion function has body equal to the
  JSON serialization of the envelope \<^verbatim>\<open>{ data: row, env }\<close> of a parsed row, an entry
  id \<^verbatim>\<open>row-<index>-<timestamp>\<close> that is unique within its batch, the constant FIFO
  group id \<^verbatim>\<open>CSVChunkGroup\<close>, and the deduplication id
  \<^verbatim>\<open>dedup-<k>-<timestamp>\<close>, where \<open>k\<close> is \<^verbatim>\<open>row.id\<close> when that is present and
  not empty and otherwise the row's index within its batch.
\<close>

theorem sent_entries:
  assumes "Records event = Some (r # rs)"
    and "decodeURIComponent E (object_key r) = Some key"
    and "s3_get E (bucket_name r) key = Some text"
  shows "\<forall>b\<in>set (calls (fst (handler E event))).
      distinct (map Id b)
      \<and> (\<forall>i<length b. \<exists>row\<in>set (fst (csvParser E text)). \<exists>n.
            Id (b ! i) = ''row-'' @ show_nat i @ ''-'' @ show_int (now E n)
          \<and> MessageBody (b ! i)
              = JSON_stringify (JObject [(''data'', row_json row),
                  (''env'', JString (env_or_default (derive_env (bucket_name r))))])
          \<and> MessageGroupId (b ! i) = ''CSVChunkGroup''
          \<and> MessageDeduplicationId (b ! i)
              = ''dedup-''
                @ (case map_of row ''id'' of
                     None \<Rightarrow> show_nat i
                   | Some v \<Rightarrow> if v = [] then show_nat i else v)
                @ ''-'' @ show_int (now E (n + 1)))"
proof
  fix b
  assume "b \<in> set (calls (fst (handler E event)))"
  from handler_batches [OF assms this] obtain t chunk where
    sub: "set chunk \<subseteq> set (fst (csvParser E text))"
    and b: "b = map (mk_entry (now E) t (env_or_default (derive_env (bucket_name r)))) (enumerate 0 chunk)"
    by blast
  have d: "distinct (map Id b)" unfolding b by (rule batch_distinct_Id)
  have "\<exists>row\<in>set (fst (csvParser E text)). \<exists>n.
            Id (b ! i) = ''row-'' @ show_nat i @ ''-'' @ show_int (now E n)
          \<and> MessageBody (b ! i)
              = JSON_stringify (JObject [(''data'', row_json row),
                  (''env'', JString (env_or_default (derive_env (bucket_name r))))])
          \<and> MessageGroupId (b ! i) = ''CSVChunkGroup''
          \<and> MessageDeduplicationId (b ! i)
              = ''dedup-''
                @ (case map_of row ''id'' of
                     None \<Rightarrow> show_nat i
                   | Some v \<Rightarrow> if v = [] then show_nat i else v)
                @ ''-'' @ show_int (now E (n + 1))"
    if i: "i < length b" for i
  proof -
    from i b have ic: "i < length chunk" by simp
    then have row: "chunk ! i \<in> set (fst (csvParser E text))" using sub by auto
    have "b ! i = mk_entry (now E) t (env_or_default (derive_env (bucket_name r))) (i, chunk ! i)"
      unfolding b using ic by (rule batch_nth)
    then have "Id (b ! i) = ''row-'' @ show_nat i @ ''-'' @ show_int (now E (t + 2 * i))
          \<and> MessageBody (b ! i)
              = JSON_stringify (JObject [(''data'', row_json (chunk ! i)),
                  (''env'', JString (env_or_default (derive_env (bucket_name r))))])
          \<and> MessageGroupId (b ! i) = ''CSVChunkGroup''
          \<and> MessageDeduplicationId (b ! i)
              = ''dedup-''
                @ (case map_of (chunk ! i) ''id'' of
                     None \<Rightarrow> show_nat i
                   | Some v \<Rightarrow> if v = [] then show_nat i else v)
                @ ''-'' @ show_int (now E (t + 2 * i + 1))"
      by (simp add: mk_entry_def message_body_def id_or_index_def)
    with row show ?thesis by blast
  qed
  with d show "distinct (map Id b)
      \<and> (\<forall>i<length b. \<exists>row\<in>set (fst (csvParser E text)). \<exists>n.
            Id (b ! i) = ''row-'' @ show_nat i @ ''-'' @ show_int (now E n)
          \<and> MessageBody (b ! i)
              = JSON_stringify (JObject [(''data'', row_json row),
                  (''env'', JString (env_or_default (derive_env (bucket_name r))))])
          \<and> MessageGroupId (b ! i) = ''CSVChunkGroup''
          \<and> MessageDeduplicationId (b ! i)
              = ''dedup-''
                @ (case map_of row ''id'' of
                     None \<Rightarrow> show_nat i
                   | Some v \<Rightarrow> if v = [] then show_nat i else v)
                @ ''-'' @ show_int (now E (n + 1)))"
    by blast
qed

theorem sent_entries_witness:
  "distinct (map Id (calls (fst (handler (services eleven_lines True) (upload ''myapp-dev-data''))) ! 0))
   \<and> MessageGroupId (calls (fst (handler (services eleven_lines True) (upload ''myapp-dev-data''))) ! 0 ! 9)
       = ''CSVChunkGroup''"
proof -
  let ?cs = "calls (fst (handler (services eleven_lines True) (upload ''myapp-dev-data'')))"
  have m: "?cs ! 0 \<in> set ?cs" and l: "9 < length (?cs ! 0)"
    by (simp_all add: eleven_accepted)
  from sent_entries [of "upload ''myapp-dev-data''"
      "\<lparr> bucket_name = ''myapp-dev-data'', object_key = ''batch1.csv'' \<rparr>" "[]"
      "services eleven_lines True" "''batch1.csv''" eleven_lines]
  have "\<forall>b\<in>set ?cs. distinct (map Id b)
      \<and> (\<forall>i<length b. MessageGroupId (b ! i) = ''CSVChunkGroup'')"
    by (simp add: upload_def services_def) blast
  with m l show ?thesis by blast
qed

section \<open>The environment tag\<close>

lemma two_accepted:
  "derive_env bucket = None \<Longrightarrow>
   handler (services two_lines True) (upload bucket) =
     (\<lparr> calls = [map (mk_entry (\<lambda>n. 1700000000000) 0 ''dev'')
                    (enumerate 0 [[(''id'', ''7''), (''name'', ''bob'')], [(''id'', ''8''), (''name'', ''eve'')]])],
        ticks = 4 \<rparr>, Inr success)"
  by (simp add: handler_def upload_def services_def try_block_def csv_parser_model_def
      start_def sendChunkToSQS_def CHUNK_SIZE_def env_or_default_def Let_def two_parsed)

lemma no_second_token: "derive_env ''uploads'' = None" "derive_env ''csvinbox'' = None"
  by (simp_all add: derive_env_def nth_opt_def)

text \<open>
  A bucket name without a hyphen has no second token, and the messages still carry an
  environment: \<^verbatim>\<open>dev\<close>, which is no token of the name.
\<close>

theorem second_token_counterexample:
  "derive_env ''uploads'' = None
   \<and> ''dev'' \<notin> set (split_on CHR ''-'' ''uploads'')
   \<and> map MessageBody (concat (calls (fst (handler (services two_lines True) (upload ''uploads'')))))
       = [message_body [(''id'', ''7''), (''name'', ''bob'')] ''dev'',
          message_body [(''id'', ''8''), (''name'', ''eve'')] ''dev'']"
  by (simp add: two_accepted no_second_token body_mk_entry)

text \<open>
  C8, amended: for every bucket name, the ingestion handler derives env by splitting the
  bucket name on \<^verbatim>\<open>-\<close> and taking the second token (bucket \<^verbatim>\<open>app-dev-uploads\<close> yields
  \<^verbatim>\<open>dev\<close>); when the name has a second token, this value is placed in every message
  sent for that upload, and when it has none, every message carries \<^verbatim>\<open>dev\<close>.
\<close>

theorem env_in_messages:
  assumes "Records event = Some (r # rs)"
    and "decodeURIComponent E (object_key r) = Some key"
    and "s3_get E (bucket_name r) key = Some text"
  shows "derive_env ''app-dev-uploads'' = Some ''dev''
    \<and> (\<forall>b\<in>set (calls (fst (handler E event))). \<forall>e\<in>set b.
          \<exists>row\<in>set (fst (csvParser E text)).
            MessageBody e
              = JSON_stringify (JObject [(''data'', row_json row),
                  (''env'', JString (case split_on CHR ''-'' (bucket_name r) of
                                       p # t # ts \<Rightarrow> t
                                     | _ \<Rightarrow> ''dev''))]))"
proof -
  have example: "derive_env ''app-dev-uploads'' = Some ''dev''"
    by (simp add: derive_env_def nth_opt_def)
  have env: "env_or_default (derive_env (bucket_name r))
      = (case split_on CHR ''-'' (bucket_name r) of p # t # ts \<Rightarrow> t | _ \<Rightarrow> ''dev'')"
    by (simp add: derive_env_cases env_or_default_def split: list.splits)
  have "\<exists>row\<in>set (fst (csvParser E text)).
          MessageBody e
            = JSON_stringify (JObject [(''data'', row_json row),
                (''env'', JString (case split_on CHR ''-'' (bucket_name r) of
                                     p # t # ts \<Rightarrow> t
                                   | _ \<Rightarrow> ''dev''))])"
    if b: "b \<in> set (calls (fst (handler E event)))" and e: "e \<in> set b" for b e
  proof -
    from handler_batches [OF assms b] obtain t chunk where
      sub: "set chunk \<subseteq> set (fst (csvParser E text))"
      and "b = map (mk_entry (now E) t (env_or_default (derive_env (bucket_name r)))) (enumerate 0 chunk)"
      by blast
    with e entry_of_batch obtain row where "row \<in> set chunk"
      and "MessageBody e = message_body row (env_or_default (derive_env (bucket_name r)))"
      by blast
    with sub env show ?thesis by (auto simp: message_body_def)
  qed
  with example show ?thesis by blast
qed

theorem env_in_messages_witness:
  "split_on CHR ''-'' ''myapp-dev-data'' = [''myapp'', ''dev'', ''data'']
   \<and> (MessageBody (calls (fst (handler (services eleven_lines True) (upload ''myapp-dev-data''))) ! 1 ! 0)
        = JSON_stringify (JObject [(''data'', row_json nameless), (''env'', JString ''dev'')]))"
proof -
  let ?cs = "calls (fst (handler (services eleven_lines True) (upload ''myapp-dev-data'')))"
  have m: "?cs ! 1 \<in> set ?cs" and l: "?cs ! 1 ! 0 \<in> set (?cs ! 1)"
    by (simp_all add: eleven_accepted)
  have s: "split_on CHR ''-'' ''myapp-dev-data'' = [''myapp'', ''dev'', ''data'']" by simp
  from env_in_messages [of "upload ''myapp-dev-data''"
      "\<lparr> bucket_name = ''myapp-dev-data'', object_key = ''batch1.csv'' \<rparr>" "[]"
      "services eleven_lines True" "''batch1.csv''" eleven_lines]
  have "\<forall>b\<in>set ?cs. \<forall>e\<in>set b. \<exists>row\<in>set (nameless # replicate 10 nameless).
      MessageBody e = JSON_stringify (JObject [(''data'', row_json row), (''env'', JString ''dev'')])"
    by (simp add: upload_def services_def csv_parser_model_def eleven_parsed)
  with m l have "\<exists>row\<in>set (nameless # replicate 10 nameless).
      MessageBody (?cs ! 1 ! 0) = JSON_stringify (JObject [(''data'', row_json row), (''env'', JString ''dev'')])"
    by blast
  then have "MessageBody (?cs ! 1 ! 0)
      = JSON_stringify (JObject [(''data'', row_json nameless), (''env'', JString ''dev'')])"
    by auto
  with s show ?thesis by blast
qed

text \<open>
  With a one-token bucket name the \<^verbatim>\<open>env\<close> field is not left out of the body: the
  default of \<^verbatim>\<open>sendChunkToSQS\<close> fills it in.
\<close>

theorem env_omitted_counterexample:
  "length (split_on CHR ''-'' ''csvinbox'') < 2
   \<and> MessageBody (calls (fst (handler (services two_lines True) (upload ''csvinbox''))) ! 0 ! 0)
       \<noteq> JSON_stringify (JObject [(''data'', row_json [(''id'', ''7''), (''name'', ''bob'')])])
   \<and> MessageBody (calls (fst (handler (services two_lines True) (upload ''csvinbox''))) ! 0 ! 0)
       = JSON_stringify (JObject [(''data'', row_json [(''id'', ''7''), (''name'', ''bob'')]),
                                  (''env'', JString ''dev'')])"
  by (simp add: two_accepted no_second_token body_mk_entry body_has_env)
     (simp add: message_body_def)

text \<open>
  C10, amended: for every bucket name containing fewer than two \<^verbatim>\<open>-\<close>-separated tokens,
  the derived env is undefined; the default of \<^verbatim>\<open>sendChunkToSQS\<close> then applies, so
  every sent message body carries the field \<^verbatim>\<open>"env":"dev"\<close> (it is not omitted), and the
  ingestion handler returns status 200 when all sends succeed.
\<close>

theorem default_environment_applies:
  assumes "Records event = Some (r # rs)"
    and "decodeURIComponent E (object_key r) = Some key"
    and "s3_get E (bucket_name r) key = Some text"
    and "csvParser E text = (rows, False)"
    and "\<forall>n. sqs_ok E n"
    and "length (split_on CHR ''-'' (bucket_name r)) < 2"
  shows "derive_env (bucket_name r) = None
    \<and> map MessageBody (concat (calls (fst (handler E event))))
        = map (\<lambda>row. JSON_stringify (JObject [(''data'', row_json row), (''env'', JString ''dev'')])) rows
    \<and> (\<forall>row\<in>set rows.
          JSON_stringify (JObject [(''data'', row_json row), (''env'', JString ''dev'')])
            \<noteq> JSON_stringify (JObject [(''data'', row_json row)]))
    \<and> snd (handler E event) = Inr success
    \<and> statusCode success = 200"
proof -
  from assms(6) have none: "derive_env (bucket_name r) = None"
    by (simp add: derive_env_def nth_opt_def)
  from handler_ok [OF assms(1-5)] none
  have "map MessageBody (concat (calls (fst (handler E event))))
        = map (\<lambda>row. message_body row ''dev'') rows"
    and "snd (handler E event) = Inr success"
    by (simp_all add: env_or_default_def)
  moreover have "JSON_stringify (JObject [(''data'', row_json row), (''env'', JString ''dev'')])
            \<noteq> JSON_stringify (JObject [(''data'', row_json row)])" for row
    using body_has_env [of row "''dev''"] unfolding message_body_def .
  ultimately show ?thesis using none by (simp add: message_body_def success_def)
qed

theorem default_environment_applies_witness:
  "length (split_on CHR ''-'' ''uploads'') < 2
   \<and> snd (handler (services two_lines True) (upload ''uploads'')) = Inr success
   \<and> map MessageBody (concat (calls (fst (handler (services two_lines True) (upload ''uploads'')))))
       = [JSON_stringify (JObject [(''data'', row_json [(''id'', ''7''), (''name'', ''bob'')]), (''env'', JString ''dev'')]),
          JSON_stringify (JObject [(''data'', row_json [(''id'', ''8''), (''name'', ''eve'')]), (''env'', JString ''dev'')])]"
  using default_environment_applies [of "upload ''uploads''"
      "\<lparr> bucket_name = ''uploads'', object_key = ''batch1.csv'' \<rparr>" "[]"
      "services two_lines True" "''batch1.csv''" two_lines
      "[[(''id'', ''7''), (''name'', ''bob'')], [(''id'', ''8''), (''name'', ''eve'')]]"]
  by (simp add: upload_def services_def csv_parser_model_def two_parsed)

section \<open>What an invocation of the ingestion function ends with\<close>

text \<open>
  Once the event has a record and its key decodes, everything else happens inside the
  \<^verbatim>\<open>try\<close>: the handler returns a response with status 200 or 500.
\<close>

lemma handler_responds:
  assumes "Records event = Some (r # rs)"
    and "decodeURIComponent E (object_key r) = Some key"
  shows "\<exists>resp. snd (handler E event) = Inr resp \<and> (statusCode resp = 200 \<or> statusCode resp = 500)"
proof -
  obtain st res where tb: "try_block E (bucket_name r) key (derive_env (bucket_name r)) start = (st, res)"
    by (cases "try_block E (bucket_name r) key (derive_env (bucket_name r)) start")
  have ok: "statusCode resp = 200" if "res = Inr resp" for resp
    using tb that
    by (auto simp: try_block_def success_def split: option.splits prod.splits sum.splits if_splits)
  show ?thesis
  proof (cases res)
    case (Inl e)
    with assms tb have "snd (handler E event) = Inr failure" by (simp add: handler_def Let_def)
    then show ?thesis by (simp add: failure_def)
  next
    case (Inr resp)
    with assms tb have "snd (handler E event) = Inr resp" by (simp add: handler_def Let_def)
    with ok [OF Inr] show ?thesis by simp
  qed
qed

text \<open>
  C3: the ingestion handler reads \<^verbatim>\<open>event.Records[0]\<close> before its \<^verbatim>\<open>try\<close>. For an
  event whose \<^verbatim>\<open>Records\<close> is empty or missing the invocation ends with a
  \<^verbatim>\<open>TypeError\<close>, not with a response; nothing has been sent.
\<close>

theorem handler_without_record:
  "handler E \<lparr> Records = Some [] \<rparr> = (start, Inl TypeError)
   \<and> handler E \<lparr> Records = None \<rparr> = (start, Inl TypeError)"
  by (simp add: handler_def)

section \<open>The configuration cache of the consumer\<close>

lemma getDatabaseConfig_hit:
  "dbConfigCache st env = Some config \<Longrightarrow> getDatabaseConfig ssm env st = (st, Inr config)"
  by (simp add: getDatabaseConfig_def)

lemma getDatabaseConfig_miss:
  assumes "dbConfigCache st env = None"
  shows "lookups (fst (getDatabaseConfig ssm env st)) = lookups st @ parameter_names env"
    and "getDatabaseConfig ssm env st = (st', Inr config) \<Longrightarrow>
         dbConfigCache st' = (dbConfigCache st)(env \<mapsto> config)
         \<and> ssm (''/'' @ env @ ''/MYSQL_HOST'') True = Some (host config)
         \<and> ssm (''/'' @ env @ ''/MYSQL_USER'') True = Some (user config)
         \<and> ssm (''/'' @ env @ ''/MYSQL_PASSWORD'') True = Some (password config)
         \<and> ssm (''/'' @ env @ ''/MYSQL_DATABASE'') True = Some (database config)"
    and "(p, d) \<in> set (parameter_names env) \<Longrightarrow> ssm p d = None \<Longrightarrow>
         snd (getDatabaseConfig ssm env st) = Inl SSMError
         \<and> dbConfigCache (fst (getDatabaseConfig ssm env st)) = dbConfigCache st"
  using assms
  by (auto simp: getDatabaseConfig_def getParameter_def parameter_names_def Let_def
      split: option.splits sum.splits)

lemma cache_kept:
  assumes "dbConfigCache st env = Some config"
  shows "dbConfigCache (fst (getDatabaseConfig ssm e st)) env = Some config"
proof (cases "dbConfigCache st e")
  case None
  with assms have "e \<noteq> env" by auto
  with assms None show ?thesis
    by (auto simp: getDatabaseConfig_def getParameter_def Let_def split: option.splits sum.splits)
next
  case (Some c)
  with assms show ?thesis by (simp add: getDatabaseConfig_def)
qed

lemma requests_kept:
  "dbConfigCache st env = Some config \<Longrightarrow> dbConfigCache (requests rs st) env = Some config"
proof (induction rs arbitrary: st)
  case Nil
  then show ?case by simp
next
  case (Cons a rs)
  obtain ssm e where a: "a = (ssm, e)" by (cases a)
  from Cons.prems have "dbConfigCache (fst (getDatabaseConfig ssm e st)) env = Some config"
    by (rule cache_kept)
  with Cons.IH a show ?case by simp
qed

text \<open>
  C4: when \<^verbatim>\<open>getDatabaseConfig(env)\<close> succeeds for an environment that is not cached
  yet, it has requested exactly the four parameters \<^verbatim>\<open>/{env}/MYSQL_HOST\<close>,
  \<^verbatim>\<open>/{env}/MYSQL_USER\<close>, \<^verbatim>\<open>/{env}/MYSQL_PASSWORD\<close> and
  \<^verbatim>\<open>/{env}/MYSQL_DATABASE\<close>, each with decryption, and has cached the configuration
  made of their values; every later call with the same env in that process, after any
  other requests and whatever the parameter store would answer, returns that configuration
  and leaves the state, and so the list of lookups, as it is.
\<close>

theorem config_fetched_once:
  assumes miss: "dbConfigCache st env = None"
    and first: "getDatabaseConfig ssm env st = (st', Inr config)"
  shows "lookups st' = lookups st @
           [(''/'' @ env @ ''/MYSQL_HOST'', True), (''/'' @ env @ ''/MYSQL_USER'', True),
            (''/'' @ env @ ''/MYSQL_PASSWORD'', True), (''/'' @ env @ ''/MYSQL_DATABASE'', True)]
    \<and> ssm (''/'' @ env @ ''/MYSQL_HOST'') True = Some (host config)
    \<and> ssm (''/'' @ env @ ''/MYSQL_USER'') True = Some (user config)
    \<and> ssm (''/'' @ env @ ''/MYSQL_PASSWORD'') True = Some (password config)
    \<and> ssm (''/'' @ env @ ''/MYSQL_DATABASE'') True = Some (database config)
    \<and> dbConfigCache st' env = Some config
    \<and> (\<forall>rs ssm'. getDatabaseConfig ssm' env (requests rs st') = (requests rs st', Inr config))"
proof -
  from getDatabaseConfig_miss(1) [OF miss, of ssm] first
  have l: "lookups st' = lookups st @ parameter_names env" by simp
  from getDatabaseConfig_miss(2) [OF miss first]
  have c: "dbConfigCache st' env = Some config"
    and v: "ssm (''/'' @ env @ ''/MYSQL_HOST'') True = Some (host config)"
      "ssm (''/'' @ env @ ''/MYSQL_USER'') True = Some (user config)"
      "ssm (''/'' @ env @ ''/MYSQL_PASSWORD'') True = Some (password config)"
      "ssm (''/'' @ env @ ''/MYSQL_DATABASE'') True = Some (database config)"
    by simp_all
  have "getDatabaseConfig ssm' env (requests rs st') = (requests rs st', Inr config)" for rs ssm'
    using requests_kept [OF c] by (rule getDatabaseConfig_hit)
  with l c v show ?thesis by (simp add: parameter_names_def)
qed

theorem config_fetched_once_witness:
  "lookups (fst (getDatabaseConfig ssm_full ''dev'' fresh)) = parameter_names ''dev''
   \<and> getDatabaseConfig ssm_partial ''dev''
         (requests [(ssm_full, ''prod'')] (fst (getDatabaseConfig ssm_full ''dev'' fresh)))
       = (requests [(ssm_full, ''prod'')] (fst (getDatabaseConfig ssm_full ''dev'' fresh)),
          snd (getDatabaseConfig ssm_full ''dev'' fresh))"
proof -
  let ?config = "\<lparr> host = ''value of /dev/MYSQL_HOST'', user = ''value of /dev/MYSQL_USER'',
      password = ''value of /dev/MYSQL_PASSWORD'', database = ''value of /dev/MYSQL_DATABASE'' \<rparr>"
  let ?st = "\<lparr> dbConfigCache = [''dev'' \<mapsto> ?config], lookups = parameter_names ''dev'' \<rparr>"
  have miss: "dbConfigCache fresh ''dev'' = None" by (simp add: fresh_def)
  have first: "getDatabaseConfig ssm_full ''dev'' fresh = (?st, Inr ?config)"
    by (simp add: getDatabaseConfig_def getParameter_def ssm_full_def fresh_def parameter_names_def Let_def)
  from config_fetched_once [OF miss first]
  have "lookups ?st = lookups fresh @ parameter_names ''dev''"
    and "\<forall>rs ssm'. getDatabaseConfig ssm' ''dev'' (requests rs ?st) = (requests rs ?st, Inr ?config)"
    by (simp_all add: parameter_names_def)
  then have "lookups ?st = parameter_names ''dev''"
    and "getDatabaseConfig ssm_partial ''dev'' (requests [(ssm_full, ''prod'')] ?st)
       = (requests [(ssm_full, ''prod'')] ?st, Inr ?config)"
    by (simp add: fresh_def, blast)
  with first show ?thesis by simp
qed

text \<open>
  C9: if any of the four parameter-store fetches for an environment that is not cached
  fails, \<^verbatim>\<open>getDatabaseConfig\<close> ends with the error and the cache is left as it was, so
  a later call for the same environment issues the four lookups again.
\<close>

theorem config_fetch_failure:
  assumes miss: "dbConfigCache st env = None"
    and p: "(p, d) \<in> set (parameter_names env)"
    and fail: "ssm p d = None"
  shows "snd (getDatabaseConfig ssm env st) = Inl SSMError
    \<and> dbConfigCache (fst (getDatabaseConfig ssm env st)) = dbConfigCache st
    \<and> (\<forall>ssm'. lookups (fst (getDatabaseConfig ssm' env (fst (getDatabaseConfig ssm env st))))
          = lookups (fst (getDatabaseConfig ssm env st)) @ parameter_names env)"
proof -
  let ?st = "fst (getDatabaseConfig ssm env st)"
  from getDatabaseConfig_miss(3) [where ssm = ssm and p = p and d = d, OF miss p fail]
  have r: "snd (getDatabaseConfig ssm env st) = Inl SSMError"
    and c: "dbConfigCache ?st = dbConfigCache st" by simp_all
  from c miss have "dbConfigCache ?st env = None" by simp
  from getDatabaseConfig_miss(1) [OF this]
  have "lookups (fst (getDatabaseConfig ssm' env ?st)) = lookups ?st @ parameter_names env" for ssm' .
  with r c show ?thesis by simp
qed

theorem config_fetch_failure_witness:
  "ssm_partial ''/dev/MYSQL_PASSWORD'' True = None
   \<and> snd (getDatabaseConfig ssm_partial ''dev'' fresh) = Inl SSMError
   \<and> dbConfigCache (fst (getDatabaseConfig ssm_partial ''dev'' fresh)) = Map.empty
   \<and> lookups (fst (getDatabaseConfig ssm_full ''dev'' (fst (getDatabaseConfig ssm_partial ''dev'' fresh))))
       = lookups (fst (getDatabaseConfig ssm_partial ''dev'' fresh)) @ parameter_names ''dev''"
  using config_fetch_failure [of fresh "''dev''" "''/dev/MYSQL_PASSWORD''" True ssm_partial]
  by (simp add: fresh_def parameter_names_def ssm_partial_def)

section \<open>The upsert\<close>

lemma upsert_miss:
  "\<forall>old\<in>set tbl. \<not> dup new old \<Longrightarrow> upsert dup new tbl = tbl @ [new]"
  by (induction tbl) simp_all

lemma upsert_first_match:
  "\<exists>old\<in>set tbl. dup new old \<Longrightarrow>
     \<exists>i<length tbl. dup new (tbl ! i) \<and> (\<forall>j<i. \<not> dup new (tbl ! j))
       \<and> upsert dup new tbl = tbl[i := (tbl ! i)\<lparr> u_updatedAt := u_updatedAt new \<rparr>]"
proof (induction tbl)
  case Nil
  then show ?case by simp
next
  case (Cons old tbl)
  show ?case
  proof (cases "dup new old")
    case True
    then have "0 < length (old # tbl) \<and> dup new ((old # tbl) ! 0)
      \<and> (\<forall>j<0. \<not> dup new ((old # tbl) ! j))
      \<and> upsert dup new (old # tbl)
          = (old # tbl)[0 := ((old # tbl) ! 0)\<lparr> u_updatedAt := u_updatedAt new \<rparr>]"
      by simp
    then show ?thesis by blast
  next
    case False
    with Cons.prems have "\<exists>old\<in>set tbl. dup new old" by simp
    from Cons.IH [OF this] obtain i where i: "i < length tbl" "dup new (tbl ! i)"
      and least: "\<forall>j<i. \<not> dup new (tbl ! j)"
      and eq: "upsert dup new tbl = tbl[i := (tbl ! i)\<lparr> u_updatedAt := u_updatedAt new \<rparr>]"
      by blast
    have "\<not> dup new ((old # tbl) ! j)" if "j < Suc i" for j
      using that False least by (cases j) simp_all
    with i eq False have "Suc i < length (old # tbl) \<and> dup new ((old # tbl) ! Suc i)
      \<and> (\<forall>j<Suc i. \<not> dup new ((old # tbl) ! j))
      \<and> upsert dup new (old # tbl)
          = (old # tbl)[Suc i := ((old # tbl) ! Suc i)\<lparr> u_updatedAt := u_updatedAt new \<rparr>]"
      by simp
    then show ?thesis by blast
  qed
qed

lemma upsert_append:
  "\<forall>old\<in>set tbl. \<not> dup new old \<Longrightarrow> upsert dup new (tbl @ rest) = tbl @ upsert dup new rest"
  by (induction tbl) simp_all

text \<open>
  C5: upserting the same logical user twice results in a single row for that user. The
  table's keys are the relation \<open>dup\<close>; it does not look at \<^verbatim>\<open>updatedAt\<close> of the stored
  row, the second row duplicates the first (same value of the unique key), and it
  duplicates every stored row the first one duplicates. Then the first upsert appends its
  row when no stored row duplicates it and otherwise writes \<^verbatim>\<open>updatedAt\<close> of the first
  stored row it duplicates; the second upsert finds a row it duplicates, writes only
  \<^verbatim>\<open>updatedAt\<close> of the first such row and adds no row. For a user that was not in the
  table, the table ends with one more row: the first row with the second \<^verbatim>\<open>updatedAt\<close>.
\<close>

theorem upsert_twice:
  assumes same: "dup second first"
    and stable: "\<forall>a r t. dup a (r\<lparr> u_updatedAt := t \<rparr>) = dup a r"
    and carried: "\<forall>old\<in>set tbl. dup first old \<longrightarrow> dup second old"
  shows "((\<forall>old\<in>set tbl. \<not> dup first old) \<longrightarrow> upsert dup first tbl = tbl @ [first])
    \<and> ((\<exists>old\<in>set tbl. dup first old) \<longrightarrow>
          (\<exists>i<length tbl. dup first (tbl ! i) \<and> (\<forall>j<i. \<not> dup first (tbl ! j))
             \<and> upsert dup first tbl = tbl[i := (tbl ! i)\<lparr> u_updatedAt := u_updatedAt first \<rparr>]))
    \<and> (\<exists>i<length (upsert dup first tbl).
          dup second (upsert dup first tbl ! i)
          \<and> (\<forall>j<i. \<not> dup second (upsert dup first tbl ! j))
          \<and> upsert dup second (upsert dup first tbl)
              = (upsert dup first tbl)
                  [i := (upsert dup first tbl ! i)\<lparr> u_updatedAt := u_updatedAt second \<rparr>])
    \<and> length (upsert dup second (upsert dup first tbl)) = length (upsert dup first tbl)
    \<and> ((\<forall>old\<in>set tbl. \<not> dup first old \<and> \<not> dup second old) \<longrightarrow>
          upsert dup second (upsert dup first tbl)
            = tbl @ [first\<lparr> u_updatedAt := u_updatedAt second \<rparr>])"
proof -
  let ?T = "upsert dup first tbl"
  have miss: "?T = tbl @ [first]" if "\<forall>old\<in>set tbl. \<not> dup first old"
    using that by (rule upsert_miss)
  have hit: "\<exists>i<length tbl. dup first (tbl ! i) \<and> (\<forall>j<i. \<not> dup first (tbl ! j))
             \<and> ?T = tbl[i := (tbl ! i)\<lparr> u_updatedAt := u_updatedAt first \<rparr>]"
    if "\<exists>old\<in>set tbl. dup first old"
    using that by (rule upsert_first_match)
  have stored: "\<exists>row\<in>set ?T. dup second row"
  proof (cases "\<exists>old\<in>set tbl. dup first old")
    case False
    then have "?T = tbl @ [first]" using miss by blast
    with same show ?thesis by simp
  next
    case True
    from hit [OF True] obtain i where i: "i < length tbl" "dup first (tbl ! i)"
      and T: "?T = tbl[i := (tbl ! i)\<lparr> u_updatedAt := u_updatedAt first \<rparr>]"
      by blast
    from i carried have "dup second (tbl ! i)" by simp
    with stable have "dup second ((tbl ! i)\<lparr> u_updatedAt := u_updatedAt first \<rparr>)" by simp
    moreover have "(tbl ! i)\<lparr> u_updatedAt := u_updatedAt first \<rparr> \<in> set ?T"
      unfolding T using i(1) by (simp add: set_update_memI)
    ultimately show ?thesis by blast
  qed
  from upsert_first_match [where dup = dup and new = second and tbl = ?T, OF stored]
  obtain i where i: "i < length ?T" "dup second (?T ! i)" "\<forall>j<i. \<not> dup second (?T ! j)"
    and T2: "upsert dup second ?T = ?T[i := (?T ! i)\<lparr> u_updatedAt := u_updatedAt second \<rparr>]"
    by blast
  have len: "length (upsert dup second ?T) = length ?T"
    by (simp only: T2 length_list_update)
  have fresh: "upsert dup second ?T = tbl @ [first\<lparr> u_updatedAt := u_updatedAt second \<rparr>]"
    if new: "\<forall>old\<in>set tbl. \<not> dup first old \<and> \<not> dup second old"
  proof -
    from new have "?T = tbl @ [first]" using miss by blast
    moreover from new have "upsert dup second (tbl @ [first]) = tbl @ upsert dup second [first]"
      by (intro upsert_append) blast
    ultimately show ?thesis using same by simp
  qed
  from miss hit i T2 len fresh show ?thesis by blast
qed

theorem upsert_twice_witness:
  "id_or_name (bob_row ''u-2'' ''t2'') (bob_row ''u-1'' ''t1'')
   \<and> upsert id_or_name (bob_row ''u-1'' ''t1'') [alice_row] = [alice_row, bob_row ''u-1'' ''t1'']
   \<and> upsert id_or_name (bob_row ''u-2'' ''t2'') (upsert id_or_name (bob_row ''u-1'' ''t1'') [alice_row])
       = [alice_row, (bob_row ''u-1'' ''t1'')\<lparr> u_updatedAt := Some (JString ''t2'') \<rparr>]"
  using upsert_twice [of id_or_name "bob_row ''u-2'' ''t2''" "bob_row ''u-1'' ''t1''" "[alice_row]"]
  by (simp add: id_or_name_def bob_row_def alice_row_def)

section \<open>Failures while a record is processed\<close>

lemma earlier_failure_keeps_message:
  assumes "\<not> (getConnection_ok A \<and> beginTransaction_ok A \<and> execute_ok A \<and> deleteMessage_ok A)"
  shows "users (fst (processRecord dup parse A record w)) = users w"
    and "queue (fst (processRecord dup parse A record w)) = queue w"
  using assms
  by (auto simp: processRecord_def transaction_def Let_def split: option.splits)

text \<open>
  C2: \<^verbatim>\<open>processRecord\<close> deletes the queue message before it commits. When every step
  up to the delete succeeds and the commit fails, the error is rethrown after the rollback
  and nothing is committed, but the message has left the queue.
\<close>

theorem commit_failure_loses_message:
  "processRecord same_name parse_bob commit_fails bob_record one_message
     = (\<lparr> users = [], open_tx = None, queue = [], held = 0 \<rparr>, Inl DBError)
   \<and> queue one_message = [receiptHandle bob_record]"
  by (simp add: processRecord_def transaction_def parse_bob_def bob_record_def bob_payload_def
      destructure_def get_prop_def commit_fails_def one_message_def Let_def)

end
